theory Spec2Isabelle
  imports Main
begin

section \<open>Memory model of \<open>zipper.hpp\<close>\<close>

text \<open>
  A \<open>node<T>\<close> holds its children by value in a \<open>std::vector<node<T>>\<close> and a raw
  pointer to its parent; the zipper holds the root by value and a raw pointer \<open>current\<close>.
  Pointers are addresses (natural numbers), \<open>nullptr\<close> is \<open>None\<close>.

  The vector of children is its three words \<open>children_data\<close> (start of the buffer),
  \<open>children_cap\<close> (capacity) and the elements themselves, \<open>children\<close>: element \<open>i\<close>
  lives at address \<open>children_data + i\<close> (addresses count node slots). An empty vector
  that never allocated has capacity 0, and its \<open>children_data\<close> is never read.
  The fields are listed in the order of the class: \<open>children\<close>, \<open>parent\<close>, \<open>value\<close>
  (written \<open>val\<close>).
\<close>

type_synonym addr = nat

datatype 'a node =
  Node (children_data: addr) (children_cap: nat) (children: "'a node list")
       (parent: "addr option") (val: 'a)

text \<open>
  The zipper object: the root node, stored at address \<open>root_addr\<close>, and the cursor.
  \<open>heap_top\<close> is the state of the allocator, the first address never handed out so far:
  buffers are allocated upwards from it and a freed buffer is not reused.
\<close>

record 'a zipper =
  root :: "'a node"
  current :: addr
  heap_top :: addr

definition root_addr :: addr where
  "root_addr = 0"

text \<open>
  The errors: the two \<open>std::runtime_error\<close>s thrown by \<open>step_back\<close> and \<open>step_forward\<close>,
  and two kinds of undefined behaviour: \<open>DanglingPointer\<close> for going through a pointer at
  whose address no node lives, \<open>IntegerOverflow\<close> for \<open>int\<close> arithmetic that leaves the
  range of \<open>int\<close>.
\<close>

datatype error = CannotStepBack | InvalidBranch | DanglingPointer | IntegerOverflow

text \<open>
  \<open>node_at a self n\<close>: the node living at address \<open>a\<close> in the subtree \<open>n\<close>, which itself
  lives at \<open>self\<close>; \<open>nodes_at a b cs\<close> searches the elements \<open>cs\<close> of a buffer whose first
  element lives at \<open>b\<close>.
\<close>

fun node_at :: "addr \<Rightarrow> addr \<Rightarrow> 'a node \<Rightarrow> 'a node option"
  and nodes_at :: "addr \<Rightarrow> addr \<Rightarrow> 'a node list \<Rightarrow> 'a node option" where
  "node_at a self (Node d c cs p v) =
     (if a = self then Some (Node d c cs p v) else nodes_at a d cs)"
| "nodes_at a b [] = None"
| "nodes_at a b (n # ns) =
     (case node_at a b n of Some m \<Rightarrow> Some m | None \<Rightarrow> nodes_at a (Suc b) ns)"

text \<open>
  \<open>update_at a f self n\<close>: the subtree \<open>n\<close> with the node at address \<open>a\<close> (the one
  \<open>node_at\<close> finds) replaced by \<open>f\<close> of it: a write through a pointer to that node.
\<close>

fun update_at :: "addr \<Rightarrow> ('a node \<Rightarrow> 'a node) \<Rightarrow> addr \<Rightarrow> 'a node \<Rightarrow> 'a node"
  and updates_at :: "addr \<Rightarrow> ('a node \<Rightarrow> 'a node) \<Rightarrow> addr \<Rightarrow> 'a node list \<Rightarrow> 'a node list" where
  "update_at a f self (Node d c cs p v) =
     (if a = self then f (Node d c cs p v) else Node d c (updates_at a f d cs) p v)"
| "updates_at a f b [] = []"
| "updates_at a f b (n # ns) =
     (case node_at a b n of
        Some m \<Rightarrow> update_at a f b n # ns
      | None \<Rightarrow> n # updates_at a f (Suc b) ns)"

definition deref :: "'a zipper \<Rightarrow> addr \<Rightarrow> 'a node option" where
  "deref z a = node_at a root_addr (root z)"

section \<open>The node\<close>

text \<open>
  \<open>std::vector::emplace_back\<close> as libstdc++ does it: with room left the element is built
  in place; otherwise a buffer of \<open>size + max size 1\<close> slots is allocated, the elements
  are moved over and the old buffer is freed. Moving a node copies its \<open>parent\<close> and
  \<open>value\<close> and steals the buffer of its \<open>children\<close>, so the moved elements are the old
  ones at new addresses.
\<close>

definition vector_grow :: "nat \<Rightarrow> nat" where
  "vector_grow n = n + max n 1"

definition emplace_branch :: "addr \<Rightarrow> addr \<Rightarrow> 'a \<Rightarrow> 'a node \<Rightarrow> addr \<times> 'a node" where
  "emplace_branch brk this v n =
     (let new = Node 0 0 [] (Some this) v in
      if length (children n) < children_cap n
      then (brk, Node (children_data n) (children_cap n) (children n @ [new]) (parent n) (val n))
      else (brk + vector_grow (length (children n)),
            Node brk (vector_grow (length (children n))) (children n @ [new]) (parent n) (val n)))"

section \<open>The zipper\<close>

definition zipper_init :: "'a \<Rightarrow> 'a zipper" where
  "zipper_init v = \<lparr>root = Node 0 0 [] None v, current = root_addr, heap_top = Suc root_addr\<rparr>"

definition can_step_back :: "'a zipper \<Rightarrow> error + bool" where
  "can_step_back z =
     (case deref z (current z) of
        None \<Rightarrow> Inl DanglingPointer
      | Some n \<Rightarrow> Inr (parent n \<noteq> None))"

definition step_back :: "'a zipper \<Rightarrow> error option \<times> 'a zipper" where
  "step_back z =
     (case can_step_back z of
        Inl e \<Rightarrow> (Some e, z)
      | Inr ok \<Rightarrow>
          if \<not> ok then (Some CannotStepBack, z)
          else (case deref z (current z) of
                  None \<Rightarrow> (Some DanglingPointer, z)
                | Some n \<Rightarrow> (case parent n of
                              None \<Rightarrow> (Some DanglingPointer, z)
                            | Some p \<Rightarrow> (None, z\<lparr>current := p\<rparr>))))"

text \<open>
  \<open>step_back(int n)\<close>: the loop \<open>for (int i = 0; i < n; ++i) step_back();\<close>. An exception
  leaves the loop with the moves made so far in place.
\<close>

function step_back_loop :: "int \<Rightarrow> int \<Rightarrow> 'a zipper \<Rightarrow> error option \<times> 'a zipper" where
  "step_back_loop i n z =
     (if i < n
      then (case step_back z of
              (None, z') \<Rightarrow> step_back_loop (i + 1) n z'
            | (Some e, z') \<Rightarrow> (Some e, z'))
      else (None, z))"
  by pat_completeness auto
termination
  by (relation "measure (\<lambda>(i, n, z). nat (n - i))") auto

declare step_back_loop.simps [simp del]

definition step_back_n :: "int \<Rightarrow> 'a zipper \<Rightarrow> error option \<times> 'a zipper" where
  "step_back_n n z = step_back_loop 0 n z"

definition can_step_forward :: "'a zipper \<Rightarrow> error + bool" where
  "can_step_forward z =
     (case deref z (current z) of
        None \<Rightarrow> Inl DanglingPointer
      | Some n \<Rightarrow> Inr (children n \<noteq> []))"

definition step_forward :: "int \<Rightarrow> 'a zipper \<Rightarrow> error option \<times> 'a zipper" where
  "step_forward branch z =
     (if branch < 0 then (Some InvalidBranch, z)
      else (case deref z (current z) of
              None \<Rightarrow> (Some DanglingPointer, z)
            | Some n \<Rightarrow>
                if int (length (children n)) \<le> branch then (Some InvalidBranch, z)
                else (None, z\<lparr>current := children_data n + nat branch\<rparr>)))"

definition entre_new_branch :: "'a \<Rightarrow> 'a zipper \<Rightarrow> error option \<times> 'a zipper" where
  "entre_new_branch v z =
     (case deref z (current z) of
        None \<Rightarrow> (Some DanglingPointer, z)
      | Some n \<Rightarrow>
          (let (brk', n') = emplace_branch (heap_top z) (current z) v n
           in (None, \<lparr>root = update_at (current z) (\<lambda>_. n') root_addr (root z),
                      current = children_data n' + (length (children n') - 1),
                      heap_top = brk'\<rparr>)))"


section \<open>Well-formed states\<close>

text \<open>
  \<open>reserved n\<close>: the addresses of all buffers owned in the subtree \<open>n\<close>, each buffer with
  its whole capacity. \<open>fits n\<close>: no vector holds more elements than its capacity.
  \<open>linked n\<close>: every node below \<open>n\<close> has a non-null \<open>parent\<close>.
\<close>

fun reserved :: "'a node \<Rightarrow> addr list"
  and reserved_list :: "'a node list \<Rightarrow> addr list" where
  "reserved (Node d c cs p v) = [d ..< d + c] @ reserved_list cs"
| "reserved_list [] = []"
| "reserved_list (n # ns) = reserved n @ reserved_list ns"

fun fits :: "'a node \<Rightarrow> bool"
  and fits_list :: "'a node list \<Rightarrow> bool" where
  "fits (Node d c cs p v) = (length cs \<le> c \<and> fits_list cs)"
| "fits_list [] = True"
| "fits_list (n # ns) = (fits n \<and> fits_list ns)"

fun linked :: "'a node \<Rightarrow> bool"
  and linked_list :: "'a node list \<Rightarrow> bool" where
  "linked (Node d c cs p v) = linked_list cs"
| "linked_list [] = True"
| "linked_list (n # ns) = (parent n \<noteq> None \<and> linked n \<and> linked_list ns)"

text \<open>
  The states the zipper is in as long as the allocator hands out fresh memory: the root
  has no parent and every other node has one; the buffers are pairwise disjoint, do not
  overlap the root and lie below \<open>heap_top\<close>.
\<close>

definition wf_zipper :: "'a zipper \<Rightarrow> bool" where
  "wf_zipper z =
     (parent (root z) = None \<and> linked (root z) \<and> fits (root z) \<and>
      distinct (root_addr # reserved (root z)) \<and>
      root_addr < heap_top z \<and> list_all (\<lambda>a. a < heap_top z) (reserved (root z)))"

text \<open>
  \<open>parents_ok self n\<close>: every node below \<open>n\<close> (which lives at \<open>self\<close>) points back to the
  address where its parent lives now.
\<close>

fun parents_ok :: "addr \<Rightarrow> 'a node \<Rightarrow> bool"
  and parents_ok_list :: "addr \<Rightarrow> addr \<Rightarrow> 'a node list \<Rightarrow> bool" where
  "parents_ok self (Node d c cs p v) = parents_ok_list self d cs"
| "parents_ok_list par b [] = True"
| "parents_ok_list par b (n # ns) =
     (parent n = Some par \<and> parents_ok b n \<and> parents_ok_list par (Suc b) ns)"

section \<open>Traversals of the children\<close>

text \<open>
  None of \<open>find_branch\<close>, \<open>map_children\<close> and \<open>fold_children\<close> has a counterpart here:
  each of these templates applies its callable to arguments of two different types, or
  needs a result the callable's wrapper does not give, so that a call is ill-typed, here as
  in C++.

  \<^item> \<open>node::find_branch\<close> searches with \<open>std::find_if\<close> and the lambda
    \<open>[p](const node<T>& n){ p(n.value); }\<close>, which calls the predicate and returns
    nothing, where \<open>std::find_if\<close> needs a truth value; \<open>zipper::find_branch\<close> is
    \<open>{ current->find_branch(p); }\<close>, with no \<open>return\<close>.
  \<^item> \<open>node::map_children\<close> chooses its branch by \<open>decltype(p(children[0]))\<close>, \<open>p\<close> applied
    to a node, and declares its result by \<open>decltype(p(value))\<close>, \<open>p\<close> applied to a value.
    Its non-void branch calls \<open>foreach_child\<close> with the lambda
    \<open>[&result, p](node& n){ result.push_back(p(n)); }\<close>, whose parameter is a node, while
    \<open>foreach_child\<close> calls its argument with \<open>n.value\<close>, a \<open>T\<close>.
  \<^item> \<open>node::fold_children\<close> computes its result type by
    \<open>decltype(f(children[0], init))\<close>, \<open>f\<close> applied to a node, and runs the loop
    \<open>res = f(v.value, res)\<close>, \<open>f\<close> applied to a value. A folder on values, such as
    \<open>[](int v, int acc){ return v + acc; }\<close>, is rejected at the first, a folder on
    nodes, as the comment above the function asks for, at the second.
\<close>

section \<open>Printing the tree\<close>

text \<open>
  The output stream, as far as \<open>printTree\<close> touches it: the text written so far and the
  format state that \<open>output << std::setw(w) << value\<close> reads. \<open>printTree\<close> sets the field
  width only; the fill character and the adjustment are what the caller left in the
  stream. \<open>AdjustRight\<close> stands for every \<open>adjustfield\<close> other than \<open>left\<close> and
  \<open>internal\<close>, the initial (empty) one among them. \<open>os_flags\<close> is the rest of the format
  state (base, \<open>showpos\<close>, \<dots>), which the text of a value may depend on.
\<close>

datatype adjustfield = AdjustLeft | AdjustInternal | AdjustRight

record 'f ostream =
  os_text :: string
  os_width :: int
  os_fill :: char
  os_adjust :: adjustfield
  os_flags :: 'f

definition setw :: "int \<Rightarrow> 'f ostream \<Rightarrow> 'f ostream" where
  "setw w os = os\<lparr>os_width := w\<rparr>"

definition endl :: "'f ostream \<Rightarrow> 'f ostream" where
  "endl os = os\<lparr>os_text := os_text os @ [CHR 0x0A]\<rparr>"

text \<open>
  A formatted insertion as the standard inserters of numbers, characters and strings do
  it. The text comes in two parts, a sign or base prefix (empty for text that has none)
  and the rest. If the text is shorter than the width, fill characters make up the
  difference: after the text under \<open>left\<close>, between prefix and rest under \<open>internal\<close>,
  before the text otherwise. A width not above the length of the text, a negative one too,
  pads nothing and cuts nothing. The width is reset to 0.
\<close>

definition pad_field :: "adjustfield \<Rightarrow> char \<Rightarrow> int \<Rightarrow> string \<times> string \<Rightarrow> string" where
  "pad_field adj c w = (\<lambda>(pre, body).
     let padding = replicate (nat (w - int (length pre + length body))) c
     in case adj of
          AdjustLeft \<Rightarrow> pre @ body @ padding
        | AdjustInternal \<Rightarrow> pre @ padding @ body
        | AdjustRight \<Rightarrow> padding @ pre @ body)"

definition formatted :: "('f \<Rightarrow> 'a \<Rightarrow> string \<times> string) \<Rightarrow> 'a \<Rightarrow> 'f ostream \<Rightarrow> 'f ostream" where
  "formatted sh v os =
     os\<lparr>os_text := os_text os @
            pad_field (os_adjust os) (os_fill os) (os_width os) (sh (os_flags os) v),
        os_width := 0\<rparr>"

text \<open>
  \<open>int\<close> has 32 bits; \<open>depth * 4\<close> and \<open>depth + 1\<close> are undefined outside its range.
\<close>

definition in_int_range :: "int \<Rightarrow> bool" where
  "in_int_range i = (- 2147483648 \<le> i \<and> i \<le> 2147483647)"

text \<open>
  \<open>node::printTree(output, depth)\<close>: \<open>ins\<close> is \<open>operator<<\<close> of the value type \<open>T\<close>.
  \<open>printTree_children\<close> is the loop over the children, which takes the depth of the
  parent and prints each child at \<open>depth + 1\<close>.
\<close>

fun printTree ::
    "('a \<Rightarrow> 'f ostream \<Rightarrow> 'f ostream) \<Rightarrow> int \<Rightarrow> 'a node \<Rightarrow> 'f ostream \<Rightarrow> error + 'f ostream"
  and printTree_children ::
    "('a \<Rightarrow> 'f ostream \<Rightarrow> 'f ostream) \<Rightarrow> int \<Rightarrow> 'a node list \<Rightarrow> 'f ostream \<Rightarrow> error + 'f ostream"
  where
  "printTree ins depth (Node d c cs p v) os =
     (if \<not> in_int_range (depth * 4) then Inl IntegerOverflow
      else printTree_children ins depth cs (endl (ins v (setw (depth * 4) os))))"
| "printTree_children ins depth [] os = Inr os"
| "printTree_children ins depth (ch # chs) os =
     (if \<not> in_int_range (depth + 1) then Inl IntegerOverflow
      else (case printTree ins (depth + 1) ch os of
              Inl e \<Rightarrow> Inl e
            | Inr os' \<Rightarrow> printTree_children ins depth chs os'))"

definition zipper_printTree ::
    "('a \<Rightarrow> 'f ostream \<Rightarrow> 'f ostream) \<Rightarrow> 'a zipper \<Rightarrow> 'f ostream \<Rightarrow> error + 'f ostream" where
  "zipper_printTree ins z os = printTree ins 0 (root z) os"

text \<open>
  The decimal text of an \<open>int\<close>, sign and digits, as \<open>operator<<\<close> writes it on a stream
  whose other flags are the initial ones; and \<open>std::cout\<close> as a program finds it.
\<close>

definition digit_char :: "nat \<Rightarrow> char" where
  "digit_char n = ''0123456789'' ! n"

fun show_nat :: "nat \<Rightarrow> string" where
  "show_nat n = (if n < 10 then [digit_char n] else show_nat (n div 10) @ [digit_char (n mod 10)])"

declare show_nat.simps [simp del]

definition show_int :: "unit \<Rightarrow> int \<Rightarrow> string \<times> string" where
  "show_int flags i = (if i < 0 then (''-'', show_nat (nat (- i))) else ([], show_nat (nat i)))"

definition cout :: "unit ostream" where
  "cout = \<lparr>os_text = [], os_width = 0, os_fill = CHR '' '', os_adjust = AdjustRight,
           os_flags = ()\<rparr>"

section \<open>The demo of \<open>test.cpp\<close>\<close>

text \<open>
  The loop of \<open>main\<close>, inside its \<open>try\<close>: the first exception ends the loop and is what
  \<open>catch\<close> reports; then the tree is printed.
\<close>

function demo_loop :: "int \<Rightarrow> int zipper \<Rightarrow> error option \<times> int zipper" where
  "demo_loop i z =
     (if i < 26
      then (case (if i mod 6 = 5 then step_back_n 5 z else entre_new_branch i z) of
              (None, z') \<Rightarrow> demo_loop (i + 1) z'
            | (Some e, z') \<Rightarrow> (Some e, z'))
      else (None, z))"
  by pat_completeness auto
termination
  by (relation "measure (\<lambda>(i, z). nat (26 - i))") auto

declare demo_loop.simps [simp del]

definition demo_main :: "error option \<times> (error + string)" where
  "demo_main =
     (let (e, z) = demo_loop 0 (zipper_init (- 1))
      in (e, map_sum id os_text (zipper_printTree (formatted show_int) z cout)))"

section \<open>Example runs\<close>

text \<open>
  \<open>run ops z\<close> applies a list of calls in order, stopping at the first error, as a client
  that does not catch exceptions would.
\<close>

datatype 'a call = StepBack | StepBackN int | StepForward int | EntreNewBranch 'a

fun run_call :: "'a call \<Rightarrow> 'a zipper \<Rightarrow> error option \<times> 'a zipper" where
  "run_call StepBack z = step_back z"
| "run_call (StepBackN k) z = step_back_n k z"
| "run_call (StepForward i) z = step_forward i z"
| "run_call (EntreNewBranch v) z = entre_new_branch v z"

fun run :: "'a call list \<Rightarrow> 'a zipper \<Rightarrow> error option \<times> 'a zipper" where
  "run [] z = (None, z)"
| "run (c # cs) z =
     (case run_call c z of
        (None, z') \<Rightarrow> run cs z'
      | (Some e, z') \<Rightarrow> (Some e, z'))"

text \<open>
  Scenario A of the specification (the chain \<open>-1, 0, 1, 2\<close>, the cursor on \<open>2\<close>) and the
  tree of Scenario C (a root with the children \<open>10, 20, 30\<close>, the cursor on the root).
\<close>

definition scenario_A :: "int zipper" where
  "scenario_A = snd (run [EntreNewBranch 0, EntreNewBranch 1, EntreNewBranch 2] (zipper_init (- 1)))"

definition scenario_C :: "int zipper" where
  "scenario_C = snd (run [EntreNewBranch 10, StepBack, EntreNewBranch 20, StepBack,
                          EntreNewBranch 30, StepBack] (zipper_init 0))"

text \<open>
  A second child for the root after a grandchild exists: the calls
  \<open>z.entre_new_branch(0); z.entre_new_branch(1); z.step_back(2); z.entre_new_branch(6);\<close>
  on \<open>zipper<int> z(-1)\<close>. \<open>before_growth\<close> is the state before the last call.
\<close>

definition before_growth :: "int zipper" where
  "before_growth = snd (run [EntreNewBranch 0, EntreNewBranch 1, StepBackN 2] (zipper_init (- 1)))"

definition after_growth :: "int zipper" where
  "after_growth = snd (entre_new_branch 6 before_growth)"

text \<open>
  From there \<open>z.step_back(); z.step_forward(0); z.step_forward(0);\<close> puts the cursor on
  node \<open>1\<close>, the child of node \<open>0\<close>.
\<close>

definition on_node_1 :: "int zipper" where
  "on_node_1 = snd (run [StepBack, StepForward 0, StepForward 0] after_growth)"

section \<open>Reachable states and the specification's wording\<close>

text \<open>The states a client can bring a zipper into through its public operations.\<close>

inductive reachable :: "'a zipper \<Rightarrow> bool" where
  reachable_init: "reachable (zipper_init v)"
| reachable_step_back: "reachable z \<Longrightarrow> reachable (snd (step_back z))"
| reachable_step_back_n: "reachable z \<Longrightarrow> reachable (snd (step_back_n k z))"
| reachable_step_forward: "reachable z \<Longrightarrow> reachable (snd (step_forward i z))"
| reachable_entre_new_branch: "reachable z \<Longrightarrow> reachable (snd (entre_new_branch v z))"

text \<open>
  The pretty-print format as the specification words it: the nodes in pre-order, each with
  its depth, a child one deeper than its parent; one line per node, the text of the value
  in a field of \<open>depth \<times> 4\<close> characters, then the line terminator. \<open>right_aligned\<close> is the
  field the specification asks for; \<open>left_aligned\<close> is its mirror image.
\<close>

fun preorder :: "int \<Rightarrow> 'a node \<Rightarrow> (int \<times> 'a) list" where
  "preorder depth (Node d c cs p v) = (depth, v) # concat (map (preorder (depth + 1)) cs)"

definition right_aligned :: "char \<Rightarrow> int \<Rightarrow> string \<Rightarrow> string" where
  "right_aligned c w s = replicate (nat (w - int (length s))) c @ s"

definition left_aligned :: "char \<Rightarrow> int \<Rightarrow> string \<Rightarrow> string" where
  "left_aligned c w s = s @ replicate (nat (w - int (length s))) c"

definition spec_line ::
    "adjustfield \<Rightarrow> char \<Rightarrow> ('a \<Rightarrow> string \<times> string) \<Rightarrow> int \<times> 'a \<Rightarrow> string" where
  "spec_line adj c sh = (\<lambda>(depth, v). pad_field adj c (depth * 4) (sh v) @ [CHR 0x0A])"

text \<open>The number of levels of a tree.\<close>

fun height :: "'a node \<Rightarrow> nat"
  and height_list :: "'a node list \<Rightarrow> nat" where
  "height (Node d c cs p v) = Suc (height_list cs)"
| "height_list [] = 0"
| "height_list (n # ns) = max (height n) (height_list ns)"

section \<open>Looking up and updating nodes\<close>

lemma node_at_self [simp]: "node_at a a n = Some n"
  by (cases n) simp

lemma node_at_reserved:
  "fits n \<Longrightarrow> node_at a self n = Some m \<Longrightarrow> a = self \<or> a \<in> set (reserved n)"
  "fits_list cs \<Longrightarrow> nodes_at a b cs = Some m \<Longrightarrow>
     a \<in> {b ..< b + length cs} \<or> a \<in> set (reserved_list cs)"
proof (induction a self n and a b cs arbitrary: m and m rule: node_at_nodes_at.induct)
  case (1 a self d c cs p v)
  then show ?case by (auto split: if_splits)
next
  case (2 a b)
  then show ?case by simp
next
  case (3 a b n ns)
  then show ?case by (fastforce split: option.splits)
qed

lemma node_at_sub:
  "node_at a self n = Some m \<Longrightarrow> set (reserved m) \<subseteq> set (reserved n)"
  "nodes_at a b cs = Some m \<Longrightarrow> set (reserved m) \<subseteq> set (reserved_list cs)"
proof (induction a self n and a b cs arbitrary: m and m rule: node_at_nodes_at.induct)
  case (1 a self d c cs p v)
  then show ?case by (auto split: if_splits)
next
  case (2 a b)
  then show ?case by simp
next
  case (3 a b n ns)
  then show ?case by (fastforce split: option.splits)
qed

lemma node_at_fits:
  "fits n \<Longrightarrow> node_at a self n = Some m \<Longrightarrow> fits m"
  "fits_list cs \<Longrightarrow> nodes_at a b cs = Some m \<Longrightarrow> fits m"
proof (induction a self n and a b cs arbitrary: m and m rule: node_at_nodes_at.induct)
  case (1 a self d c cs p v)
  then show ?case by (auto split: if_splits)
next
  case (2 a b)
  then show ?case by simp
next
  case (3 a b n ns)
  then show ?case by (fastforce split: option.splits)
qed

lemma node_at_linked:
  "linked n \<Longrightarrow> node_at a self n = Some m \<Longrightarrow> a \<noteq> self \<Longrightarrow> parent m \<noteq> None"
  "linked_list cs \<Longrightarrow> nodes_at a b cs = Some m \<Longrightarrow> parent m \<noteq> None"
proof (induction a self n and a b cs arbitrary: m and m rule: node_at_nodes_at.induct)
  case (1 a self d c cs p v)
  then show ?case by (auto split: if_splits)
next
  case (2 a b)
  then show ?case by simp
next
  case (3 a b n ns)
  then show ?case by (cases "a = b") (auto split: option.splits)
qed


lemma block_disjoint:
  "distinct ([d ..< d + c] @ R) \<Longrightarrow> k < c \<Longrightarrow> d + k \<notin> set R"
proof
  assume a: "distinct ([d ..< d + c] @ R)" "k < c" "d + k \<in> set R"
  then have mem: "d + k \<in> set [d ..< d + c]" by simp
  from a(1) have "set [d ..< d + c] \<inter> set R = {}" by simp
  with mem a(3) show False by blast
qed

lemma nodes_at_index:
  "fits_list cs \<Longrightarrow> i < length cs \<Longrightarrow> b + i \<notin> set (reserved_list cs) \<Longrightarrow>
     nodes_at (b + i) b cs = Some (cs ! i)"
proof (induction cs arbitrary: b i)
  case Nil
  then show ?case by simp
next
  case (Cons n ns)
  show ?case
  proof (cases i)
    case 0
    then show ?thesis by simp
  next
    case (Suc j)
    have "node_at (b + i) b n = None"
    proof (cases "node_at (b + i) b n")
      case None
      then show ?thesis .
    next
      case (Some m)
      with Cons.prems Suc node_at_reserved(1)[of n "b + i" b m] show ?thesis by auto
    qed
    moreover have "nodes_at (Suc b + j) (Suc b) ns = Some (ns ! j)"
      using Cons.prems Suc by (intro Cons.IH) auto
    ultimately show ?thesis using Suc by simp
  qed
qed

lemma node_at_child:
  "fits n \<Longrightarrow> distinct (self # reserved n) \<Longrightarrow> node_at a self n = Some m \<Longrightarrow>
     i < length (children m) \<Longrightarrow>
     node_at (children_data m + i) self n = Some (children m ! i)"
  "fits_list cs \<Longrightarrow> distinct (reserved_list cs) \<Longrightarrow>
     (\<forall>k < length cs. b + k \<notin> set (reserved_list cs)) \<Longrightarrow>
     nodes_at a b cs = Some m \<Longrightarrow> i < length (children m) \<Longrightarrow>
     nodes_at (children_data m + i) b cs = Some (children m ! i)"
proof (induction a self n and a b cs arbitrary: m i and m i rule: node_at_nodes_at.induct)
  case (1 a self d c cs p v)
  show ?case
  proof (cases "a = self")
    case True
    with "1.prems" have m: "m = Node d c cs p v" by simp
    with "1.prems" have i: "i < length cs" "length cs \<le> c" by auto
    then have mem: "d + i \<in> set [d ..< d + c]" by auto
    have "set [d ..< d + c] \<inter> set (reserved_list cs) = {}" "self \<notin> set [d ..< d + c]"
      using "1.prems"(2) by auto
    with mem have "d + i \<noteq> self" "d + i \<notin> set (reserved_list cs)" by blast+
    with "1.prems" i m show ?thesis by (simp add: nodes_at_index)
  next
    case False
    with "1.prems" have found: "nodes_at a d cs = Some m" by simp
    have le: "length cs \<le> c" using "1.prems" by simp
    have "distinct ([d ..< d + c] @ reserved_list cs)" using "1.prems"(2) by simp
    then have disj: "\<forall>k < length cs. d + k \<notin> set (reserved_list cs)"
      using le block_disjoint[of d c "reserved_list cs"] by auto
    have "nodes_at (children_data m + i) d cs = Some (children m ! i)"
      using "1.IH"[OF False _ _ disj found "1.prems"(4)] "1.prems"(1,2) by simp
    moreover have "children_data m + i \<in> set (reserved m)"
      using "1.prems"(4) node_at_fits(2)[OF _ found] "1.prems"(1)
      by (cases m) auto
    then have "children_data m + i \<in> set (reserved_list cs)"
      using node_at_sub(2)[OF found] by auto
    then have "children_data m + i \<noteq> self" using "1.prems"(2) by auto
    ultimately show ?thesis by simp
  qed
next
  case (2 a b)
  then show ?case by simp
next
  case (3 a b n ns)
  show ?case
  proof (cases "node_at a b n")
    case (Some m')
    with "3.prems" have found: "node_at a b n = Some m" by simp
    have "b \<notin> set (reserved n)" using "3.prems"(3) by auto
    then have "node_at (children_data m + i) b n = Some (children m ! i)"
      using "3.IH"(1)[OF _ _ found "3.prems"(5)] "3.prems"(1,2) by simp
    then show ?thesis by simp
  next
    case None
    with "3.prems" have found: "nodes_at a (Suc b) ns = Some m" by simp
    have disj: "\<forall>k < length ns. Suc b + k \<notin> set (reserved_list ns)"
      using "3.prems"(3) by fastforce
    have rec: "nodes_at (children_data m + i) (Suc b) ns = Some (children m ! i)"
      using "3.IH"(2)[OF None _ _ disj found "3.prems"(5)] "3.prems"(1,2) by simp
    have "children_data m + i \<in> set (reserved m)"
      using "3.prems"(5) node_at_fits(2)[OF _ found] "3.prems"(1)
      by (cases m) auto
    then have mem: "children_data m + i \<in> set (reserved_list ns)"
      using node_at_sub(2)[OF found] by auto
    have "node_at (children_data m + i) b n = None"
    proof (cases "node_at (children_data m + i) b n")
      case None
      then show ?thesis .
    next
      case (Some m'')
      from node_at_reserved(1)[OF _ Some] "3.prems"(1)
      have "children_data m + i = b \<or> children_data m + i \<in> set (reserved n)" by simp
      with mem "3.prems"(2,3) show ?thesis by force
    qed
    with rec show ?thesis by simp
  qed
qed


lemma update_lookup:
  "node_at a self n = Some m \<Longrightarrow> node_at a self (update_at a (\<lambda>_. m') self n) = Some m'"
  "nodes_at a b cs = Some m \<Longrightarrow> nodes_at a b (updates_at a (\<lambda>_. m') b cs) = Some m'"
proof (induction a self n and a b cs arbitrary: m and m rule: node_at_nodes_at.induct)
  case (1 a self d c cs p v)
  then show ?case by (auto split: if_splits)
next
  case (2 a b)
  then show ?case by simp
next
  case (3 a b n ns)
  then show ?case by (auto split: option.splits)
qed

lemma updates_at_length [simp]: "length (updates_at a f b cs) = length cs"
  by (induction cs arbitrary: b) (auto split: option.splits)

lemma update_fits:
  "fits n \<Longrightarrow> fits m' \<Longrightarrow> fits (update_at a (\<lambda>_. m') self n)"
  "fits_list cs \<Longrightarrow> fits m' \<Longrightarrow> fits_list (updates_at a (\<lambda>_. m') b cs)"
proof (induction a self n and a b cs rule: node_at_nodes_at.induct)
  case (1 a self d c cs p v)
  then show ?case by auto
next
  case (2 a b)
  then show ?case by simp
next
  case (3 a b n ns)
  then show ?case by (auto split: option.splits)
qed

lemma update_linked:
  "node_at a self n = Some m \<Longrightarrow> parent m' = parent m \<Longrightarrow> linked n \<Longrightarrow> linked m' \<Longrightarrow>
     linked (update_at a (\<lambda>_. m') self n) \<and> parent (update_at a (\<lambda>_. m') self n) = parent n"
  "nodes_at a b cs = Some m \<Longrightarrow> parent m' = parent m \<Longrightarrow> linked_list cs \<Longrightarrow> linked m' \<Longrightarrow>
     linked_list (updates_at a (\<lambda>_. m') b cs)"
proof (induction a self n and a b cs arbitrary: m and m rule: node_at_nodes_at.induct)
  case (1 a self d c cs p v)
  then show ?case by (auto split: if_splits)
next
  case (2 a b)
  then show ?case by simp
next
  case (3 a b n ns)
  then show ?case by (auto split: option.splits)
qed

lemma update_reserved_subset:
  "node_at a self n = Some m \<Longrightarrow> distinct (reserved n) \<Longrightarrow>
     set (reserved (update_at a (\<lambda>_. m') self n))
       \<subseteq> (set (reserved n) - set (reserved m)) \<union> set (reserved m')"
  "nodes_at a b cs = Some m \<Longrightarrow> distinct (reserved_list cs) \<Longrightarrow>
     set (reserved_list (updates_at a (\<lambda>_. m') b cs))
       \<subseteq> (set (reserved_list cs) - set (reserved m)) \<union> set (reserved m')"
proof (induction a self n and a b cs arbitrary: m and m rule: node_at_nodes_at.induct)
  case (1 a self d c cs p v)
  show ?case
  proof (cases "a = self")
    case True
    with "1.prems" show ?thesis by auto
  next
    case False
    with "1.prems" have found: "nodes_at a d cs = Some m" by simp
    from "1.prems"(2) have d: "distinct (reserved_list cs)"
      "set [d ..< d + c] \<inter> set (reserved_list cs) = {}" by auto
    note IH = "1.IH"[OF False found d(1)]
    from node_at_sub(2)[OF found] d(2)
    have "set [d ..< d + c] \<inter> set (reserved m) = {}" by blast
    with IH False show ?thesis by auto
  qed
next
  case (2 a b)
  then show ?case by simp
next
  case (3 a b n ns)
  from "3.prems"(2) have d: "distinct (reserved n)" "distinct (reserved_list ns)"
    "set (reserved n) \<inter> set (reserved_list ns) = {}" by auto
  show ?case
  proof (cases "node_at a b n")
    case (Some m0)
    with "3.prems" have found: "node_at a b n = Some m" by simp
    note IH = "3.IH"(1)[OF found d(1)]
    from node_at_sub(1)[OF found] d(3)
    have "set (reserved_list ns) \<inter> set (reserved m) = {}" by blast
    with IH found show ?thesis by auto
  next
    case None
    with "3.prems" have found: "nodes_at a (Suc b) ns = Some m" by simp
    note IH = "3.IH"(2)[OF None found d(2)]
    from node_at_sub(2)[OF found] d(3)
    have "set (reserved n) \<inter> set (reserved m) = {}" by blast
    with IH None show ?thesis by auto
  qed
qed

lemma update_reserved_distinct:
  "node_at a self n = Some m \<Longrightarrow> distinct (reserved n) \<Longrightarrow> distinct (reserved m') \<Longrightarrow>
     set (reserved m') \<inter> (set (reserved n) - set (reserved m)) = {} \<Longrightarrow>
     distinct (reserved (update_at a (\<lambda>_. m') self n))"
  "nodes_at a b cs = Some m \<Longrightarrow> distinct (reserved_list cs) \<Longrightarrow> distinct (reserved m') \<Longrightarrow>
     set (reserved m') \<inter> (set (reserved_list cs) - set (reserved m)) = {} \<Longrightarrow>
     distinct (reserved_list (updates_at a (\<lambda>_. m') b cs))"
proof (induction a self n and a b cs arbitrary: m and m rule: node_at_nodes_at.induct)
  case (1 a self d c cs p v)
  show ?case
  proof (cases "a = self")
    case True
    with "1.prems" show ?thesis by auto
  next
    case False
    with "1.prems" have found: "nodes_at a d cs = Some m" by simp
    from "1.prems"(2) have d: "distinct (reserved_list cs)"
      "set [d ..< d + c] \<inter> set (reserved_list cs) = {}" by auto
    from node_at_sub(2)[OF found] d(2)
    have dm: "set [d ..< d + c] \<inter> set (reserved m) = {}" by blast
    have fresh: "set (reserved m') \<inter> (set (reserved_list cs) - set (reserved m)) = {}"
      using "1.prems"(4) by auto
    have "distinct (reserved_list (updates_at a (\<lambda>_. m') d cs))"
      using "1.IH"[OF False found d(1) "1.prems"(3) fresh] .
    moreover have "set [d ..< d + c] \<inter> set (reserved m') = {}"
      using "1.prems"(4) dm by auto
    then have "set [d ..< d + c] \<inter> set (reserved_list (updates_at a (\<lambda>_. m') d cs)) = {}"
      using update_reserved_subset(2)[OF found d(1), of m'] d(2) by blast
    ultimately show ?thesis using False by simp
  qed
next
  case (2 a b)
  then show ?case by simp
next
  case (3 a b n ns)
  from "3.prems"(2) have d: "distinct (reserved n)" "distinct (reserved_list ns)"
    "set (reserved n) \<inter> set (reserved_list ns) = {}" by auto
  show ?case
  proof (cases "node_at a b n")
    case (Some m0)
    with "3.prems" have found: "node_at a b n = Some m" by simp
    from node_at_sub(1)[OF found] d(3)
    have dm: "set (reserved_list ns) \<inter> set (reserved m) = {}" by blast
    have fresh: "set (reserved m') \<inter> (set (reserved n) - set (reserved m)) = {}"
      using "3.prems"(4) by auto
    have "distinct (reserved (update_at a (\<lambda>_. m') b n))"
      using "3.IH"(1)[OF found d(1) "3.prems"(3) fresh] .
    moreover have "set (reserved_list ns) \<inter> set (reserved m') = {}"
      using "3.prems"(4) dm by auto
    then have "set (reserved (update_at a (\<lambda>_. m') b n)) \<inter> set (reserved_list ns) = {}"
      using update_reserved_subset(1)[OF found d(1), of m'] d(3) by blast
    ultimately show ?thesis using found d(2) by simp
  next
    case None
    with "3.prems" have found: "nodes_at a (Suc b) ns = Some m" by simp
    from node_at_sub(2)[OF found] d(3)
    have dm: "set (reserved n) \<inter> set (reserved m) = {}" by blast
    have fresh: "set (reserved m') \<inter> (set (reserved_list ns) - set (reserved m)) = {}"
      using "3.prems"(4) by auto
    have "distinct (reserved_list (updates_at a (\<lambda>_. m') (Suc b) ns))"
      using "3.IH"(2)[OF None found d(2) "3.prems"(3) fresh] .
    moreover have "set (reserved n) \<inter> set (reserved m') = {}"
      using "3.prems"(4) dm by auto
    then have "set (reserved n) \<inter> set (reserved_list (updates_at a (\<lambda>_. m') (Suc b) ns)) = {}"
      using update_reserved_subset(2)[OF found d(2), of m'] d(3) by blast
    ultimately show ?thesis using None d(1) by simp
  qed
qed


lemma reserved_list_append [simp]:
  "reserved_list (xs @ ys) = reserved_list xs @ reserved_list ys"
  by (induction xs) auto

lemma fits_list_append [simp]: "fits_list (xs @ ys) = (fits_list xs \<and> fits_list ys)"
  by (induction xs) auto

lemma linked_list_append [simp]:
  "linked_list (xs @ ys) = (linked_list xs \<and> linked_list ys)"
  by (induction xs) auto

lemma emplace_branch_fits:
  "fits m \<Longrightarrow> fits (snd (emplace_branch brk this v m))"
  by (cases m) (auto simp: emplace_branch_def vector_grow_def Let_def)

lemma emplace_branch_linked:
  "linked m \<Longrightarrow> linked (snd (emplace_branch brk this v m))"
  by (cases m) (auto simp: emplace_branch_def Let_def)

lemma emplace_branch_parent:
  "parent (snd (emplace_branch brk this v m)) = parent m"
  by (auto simp: emplace_branch_def Let_def)

lemma emplace_branch_children:
  "children (snd (emplace_branch brk this v m)) = children m @ [Node 0 0 [] (Some this) v]"
  by (auto simp: emplace_branch_def Let_def)

lemma emplace_branch_top:
  "brk \<le> fst (emplace_branch brk this v m)"
  by (auto simp: emplace_branch_def Let_def)

lemma emplace_branch_reserved:
  "set (reserved (snd (emplace_branch brk this v m)))
     \<subseteq> set (reserved m) \<union> {brk ..< fst (emplace_branch brk this v m)}"
  by (cases m) (auto simp: emplace_branch_def Let_def)

lemma emplace_branch_distinct:
  assumes "distinct (reserved m)" "\<forall>a \<in> set (reserved m). a < brk"
  shows "distinct (reserved (snd (emplace_branch brk this v m)))"
proof (cases m)
  case (Node d c cs p x)
  with assms have cs: "distinct (reserved_list cs)" "\<forall>a \<in> set (reserved_list cs). a < brk"
    by auto
  show ?thesis
  proof (cases "length cs < c")
    case True
    with Node assms show ?thesis by (simp add: emplace_branch_def Let_def)
  next
    case False
    have "set [brk ..< brk + vector_grow (length cs)] \<inter> set (reserved_list cs) = {}"
      using cs(2) by fastforce
    with Node False cs(1) show ?thesis by (simp add: emplace_branch_def Let_def)
  qed
qed

lemma node_at_linked_sub:
  "linked n \<Longrightarrow> node_at a self n = Some m \<Longrightarrow> linked m"
  "linked_list cs \<Longrightarrow> nodes_at a b cs = Some m \<Longrightarrow> linked m"
proof (induction a self n and a b cs arbitrary: m and m rule: node_at_nodes_at.induct)
  case (1 a self d c cs p v)
  then show ?case by (auto split: if_splits)
next
  case (2 a b)
  then show ?case by simp
next
  case (3 a b n ns)
  then show ?case by (auto split: option.splits)
qed

lemma node_at_distinct:
  "distinct (reserved n) \<Longrightarrow> node_at a self n = Some m \<Longrightarrow> distinct (reserved m)"
  "distinct (reserved_list cs) \<Longrightarrow> nodes_at a b cs = Some m \<Longrightarrow> distinct (reserved m)"
proof (induction a self n and a b cs arbitrary: m and m rule: node_at_nodes_at.induct)
  case (1 a self d c cs p v)
  then show ?case by (auto split: if_splits)
next
  case (2 a b)
  then show ?case by simp
next
  case (3 a b n ns)
  then show ?case by (auto split: option.splits)
qed


lemma wf_entre_new_branch:
  assumes "wf_zipper z"
  shows "wf_zipper (snd (entre_new_branch v z))"
proof (cases "deref z (current z)")
  case None
  with assms show ?thesis by (simp add: entre_new_branch_def)
next
  case (Some m)
  define brk where "brk = heap_top z"
  define m' where "m' = snd (emplace_branch brk (current z) v m)"
  define brk' where "brk' = fst (emplace_branch brk (current z) v m)"
  define r' where "r' = update_at (current z) (\<lambda>_. m') root_addr (root z)"
  have found: "node_at (current z) root_addr (root z) = Some m"
    using Some by (simp add: deref_def)
  have z': "snd (entre_new_branch v z) =
      \<lparr>root = r', current = children_data m' + (length (children m') - 1), heap_top = brk'\<rparr>"
    using Some by (simp add: entre_new_branch_def brk_def m'_def brk'_def r'_def split_beta)
  from assms have wf: "parent (root z) = None" "linked (root z)" "fits (root z)"
    "distinct (reserved (root z))" "root_addr \<notin> set (reserved (root z))" "root_addr < brk"
    "\<forall>a \<in> set (reserved (root z)). a < brk"
    by (auto simp: wf_zipper_def brk_def list_all_iff)
  have sub: "set (reserved m) \<subseteq> set (reserved (root z))"
    using node_at_sub(1)[OF found] .
  have fm: "fits m" using node_at_fits(1)[OF wf(3) found] .
  have lm: "linked m" using node_at_linked_sub(1)[OF wf(2) found] .
  have dm: "distinct (reserved m')"
    unfolding m'_def
  proof (rule emplace_branch_distinct)
    show "distinct (reserved m)"
      using node_at_distinct(1)[OF wf(4) found] .
  qed (use sub wf(7) in auto)
  have rm: "set (reserved m') \<subseteq> set (reserved m) \<union> {brk ..< brk'}"
    unfolding m'_def brk'_def by (rule emplace_branch_reserved)
  have le: "brk \<le> brk'" unfolding brk'_def by (rule emplace_branch_top)
  have fresh: "set (reserved m') \<inter> (set (reserved (root z)) - set (reserved m)) = {}"
  proof -
    have "x \<notin> set (reserved (root z)) - set (reserved m)" if "x \<in> set (reserved m')" for x
    proof -
      from that rm have "x \<in> set (reserved m) \<or> brk \<le> x" by auto
      with wf(7) show ?thesis by auto
    qed
    then show ?thesis by blast
  qed
  have rr: "set (reserved r') \<subseteq> set (reserved (root z)) \<union> {brk ..< brk'}"
    using update_reserved_subset(1)[OF found wf(4), of m'] rm sub unfolding r'_def by blast
  have "linked r' \<and> parent r' = parent (root z)"
    unfolding r'_def
    by (rule update_linked(1)[OF found _ wf(2)])
       (simp_all add: m'_def emplace_branch_parent emplace_branch_linked lm)
  moreover have "fits r'"
    unfolding r'_def by (rule update_fits(1)[OF wf(3)]) (simp add: m'_def emplace_branch_fits fm)
  moreover have "distinct (reserved r')"
    unfolding r'_def by (rule update_reserved_distinct(1)[OF found wf(4) dm fresh])
  moreover have "root_addr \<notin> set (reserved r')"
  proof
    assume "root_addr \<in> set (reserved r')"
    with rr wf(5) have "brk \<le> root_addr" by auto
    with wf(6) show False by simp
  qed
  moreover have "\<forall>a \<in> set (reserved r'). a < brk'"
  proof
    fix a assume "a \<in> set (reserved r')"
    with rr have "a \<in> set (reserved (root z)) \<or> a < brk'" by auto
    with wf(7) le show "a < brk'" by auto
  qed
  moreover have "root_addr < brk'" using wf(6) le by simp
  ultimately show ?thesis
    unfolding z' wf_zipper_def list_all_iff using wf(1) by simp
qed

section \<open>Navigation\<close>

lemma wf_zipper_init: "wf_zipper (zipper_init v)"
  by (simp add: wf_zipper_def zipper_init_def root_addr_def)

lemma wf_zipper_cong:
  "root z' = root z \<Longrightarrow> heap_top z' = heap_top z \<Longrightarrow> wf_zipper z' = wf_zipper z"
  by (simp add: wf_zipper_def)

lemma step_back_frame:
  "root (snd (step_back z)) = root z \<and> heap_top (snd (step_back z)) = heap_top z"
  by (simp add: step_back_def split: sum.split option.split)

lemma step_forward_frame:
  "root (snd (step_forward i z)) = root z \<and> heap_top (snd (step_forward i z)) = heap_top z"
  by (simp add: step_forward_def split: option.split)

lemma wf_step_back: "wf_zipper z \<Longrightarrow> wf_zipper (snd (step_back z))"
  using step_back_frame[of z] wf_zipper_cong[of "snd (step_back z)" z] by simp

lemma wf_step_forward: "wf_zipper z \<Longrightarrow> wf_zipper (snd (step_forward i z))"
  using step_forward_frame[of i z] wf_zipper_cong[of "snd (step_forward i z)" z] by simp


lemma wf_step_back_loop: "wf_zipper z \<Longrightarrow> wf_zipper (snd (step_back_loop i n z))"
proof (induction i n z rule: step_back_loop.induct)
  case (1 i n z)
  show ?case
  proof (cases "i < n")
    case False
    with "1.prems" show ?thesis by (subst step_back_loop.simps) simp
  next
    case True
    obtain e z' where sb: "step_back z = (e, z')" by (cases "step_back z")
    have wf': "wf_zipper z'" using wf_step_back[OF "1.prems"] sb by simp
    show ?thesis
    proof (cases e)
      case None
      with "1.IH"[OF True sb[symmetric] _ wf'] True sb show ?thesis
        by (subst step_back_loop.simps) simp
    next
      case (Some err)
      with True sb wf' show ?thesis by (subst step_back_loop.simps) simp
    qed
  qed
qed

lemma wf_step_back_n: "wf_zipper z \<Longrightarrow> wf_zipper (snd (step_back_n k z))"
  unfolding step_back_n_def by (rule wf_step_back_loop)

text \<open>Every state a client can reach is well formed.\<close>

lemma reachable_wf: "reachable z \<Longrightarrow> wf_zipper z"
  by (induction rule: reachable.induct)
     (simp_all add: wf_zipper_init wf_step_back wf_step_back_n wf_step_forward
        wf_entre_new_branch)

lemma reachable_run: "reachable z \<Longrightarrow> reachable (snd (run cs z))"
proof (induction cs arbitrary: z)
  case Nil
  then show ?case by simp
next
  case (Cons c cs)
  have step: "reachable (snd (run_call c z))"
    using Cons.prems by (cases c) (auto intro: reachable.intros)
  obtain e z' where r: "run_call c z = (e, z')" by (cases "run_call c z")
  with step Cons.IH[of z'] show ?case by (cases e) auto
qed

lemma reachable_after_growth: "reachable after_growth"
  unfolding after_growth_def before_growth_def
  by (intro reachable_entre_new_branch reachable_run reachable_init)

lemma reachable_on_node_1: "reachable on_node_1"
  unfolding on_node_1_def by (intro reachable_run reachable_after_growth)

section \<open>Stepping back\<close>

text \<open>
  What \<open>step_back\<close> does in a well-formed state whose cursor points to a node \<open>n\<close>:
  \<open>can_step_back\<close> is true exactly when the cursor is not the root; at the root
  \<open>step_back\<close> throws \<open>CannotStepBack\<close> and leaves the zipper as it was; anywhere else it
  throws nothing and sets the cursor to the parent pointer of \<open>n\<close>, changing nothing else.
  Where that pointer leads is another matter, see below.
\<close>

lemma step_back_spec:
  assumes "wf_zipper z" and "deref z (current z) = Some n"
  shows "can_step_back z = Inr (current z \<noteq> root_addr) \<and>
         (current z = root_addr \<longrightarrow> step_back z = (Some CannotStepBack, z)) \<and>
         (current z \<noteq> root_addr \<longrightarrow>
            (\<exists>p. parent n = Some p \<and> step_back z = (None, z\<lparr>current := p\<rparr>)))"
proof (cases "current z = root_addr")
  case True
  with assms(2) have "n = root z" by (simp add: deref_def)
  with assms True show ?thesis
    by (simp add: can_step_back_def step_back_def wf_zipper_def)
next
  case False
  from assms have "parent n \<noteq> None"
    using node_at_linked(1)[of "root z" "current z" root_addr n] False
    by (simp add: wf_zipper_def deref_def)
  with assms False show ?thesis
    by (auto simp: can_step_back_def step_back_def)
qed

lemma step_back_spec_example:
  "wf_zipper scenario_A \<and>
   deref scenario_A (current scenario_A) = Some (Node 0 0 [] (Some 2) 2) \<and>
   can_step_back scenario_A = Inr True \<and>
   step_back scenario_A = (None, scenario_A\<lparr>current := 2\<rparr>) \<and>
   wf_zipper (zipper_init (5::int)) \<and>
   can_step_back (zipper_init (5::int)) = Inr False \<and>
   step_back (zipper_init (5::int)) = (Some CannotStepBack, zipper_init 5)"
proof -
  have h1: "wf_zipper scenario_A" by code_simp
  have c: "current scenario_A \<noteq> root_addr" by code_simp
  have h2: "deref scenario_A (current scenario_A) = Some (Node 0 0 [] (Some 2) 2)"
    by code_simp
  have g1: "wf_zipper (zipper_init (5::int))" by code_simp
  have d: "current (zipper_init (5::int)) = root_addr" by code_simp
  have g2: "deref (zipper_init (5::int)) (current (zipper_init (5::int)))
      = Some (Node 0 0 [] None 5)"
    by code_simp
  from step_back_spec [OF h1 h2] step_back_spec [OF g1 g2] h1 h2 c g1 d
  show ?thesis by simp
qed

text \<open>
  Claim C4 asks \<open>step_back\<close> to move the cursor to the parent of the current node. It does
  not where the parent pointer is stale: in the reachable state \<open>on_node_1\<close> the
  cursor is on node \<open>1\<close>, which is not the root, \<open>can_step_back\<close> is true and \<open>step_back\<close>
  throws nothing, but it leaves the cursor at address 1, where no node lives. The parent
  of node \<open>1\<close>, node \<open>0\<close>, whose buffer of children holds the cursor's address 2, lives
  at address 3.
\<close>

theorem step_back_follows_stale_parent:
  "wf_zipper on_node_1 \<and>
   fst (run [StepBack, StepForward 0, StepForward 0] after_growth) = None \<and>
   current on_node_1 = 2 \<and> current on_node_1 \<noteq> root_addr \<and>
   map_option val (deref on_node_1 (current on_node_1)) = Some 1 \<and>
   can_step_back on_node_1 = Inr True \<and>
   step_back on_node_1 = (None, on_node_1\<lparr>current := 1\<rparr>) \<and>
   deref on_node_1 1 = None \<and>
   map_option val (deref on_node_1 3) = Some 0 \<and>
   map_option children_data (deref on_node_1 3) = Some 2"
  by code_simp

text \<open>
  Claim C10. For a negative count \<open>step_back(n)\<close> runs its loop zero times: it throws
  nothing and leaves the zipper as it was, as \<open>step_back(0)\<close> does.
\<close>

theorem step_back_negative:
  "n < 0 \<Longrightarrow> step_back_n n z = (None, z) \<and> step_back_n n z = step_back_n 0 z"
  by (simp add: step_back_n_def step_back_loop.simps[of 0 n z] step_back_loop.simps[of 0 0 z])

theorem step_back_negative_witness:
  "(- 1 :: int) < 0 \<and> step_back_n (- 1) scenario_A = (None, scenario_A)"
  using step_back_negative [of "- 1" scenario_A] by simp

section \<open>Stepping forward\<close>

text \<open>
  Claim C5. In a well-formed state whose cursor points to a node \<open>n\<close>: \<open>step_forward(i)\<close>
  throws \<open>InvalidBranch\<close>, leaving the zipper as it was, exactly when \<open>i\<close> is negative or
  not below the number of children of \<open>n\<close> (always, when \<open>n\<close> has no children); otherwise
  it throws nothing and the cursor points to the child of \<open>n\<close> at position \<open>i\<close>.
\<close>

theorem step_forward_spec:
  assumes "wf_zipper z" and "deref z (current z) = Some n"
  shows "step_forward i z =
           (if i < 0 \<or> int (length (children n)) \<le> i then (Some InvalidBranch, z)
            else (None, z\<lparr>current := children_data n + nat i\<rparr>)) \<and>
         (0 \<le> i \<and> i < int (length (children n)) \<longrightarrow>
            deref (snd (step_forward i z)) (current (snd (step_forward i z)))
              = Some (children n ! nat i))"
proof -
  have eq: "step_forward i z =
           (if i < 0 \<or> int (length (children n)) \<le> i then (Some InvalidBranch, z)
            else (None, z\<lparr>current := children_data n + nat i\<rparr>))"
    using assms(2) by (simp add: step_forward_def)
  moreover have "deref (snd (step_forward i z)) (current (snd (step_forward i z)))
              = Some (children n ! nat i)" if "0 \<le> i" "i < int (length (children n))"
  proof -
    have "node_at (children_data n + nat i) root_addr (root z) = Some (children n ! nat i)"
      using assms that
      by (intro node_at_child(1)[where a = "current z"]) (auto simp: wf_zipper_def deref_def)
    with that eq show ?thesis by (simp add: deref_def)
  qed
  ultimately show ?thesis by blast
qed

theorem step_forward_spec_witness:
  "wf_zipper scenario_C \<and>
   deref scenario_C (current scenario_C)
     = Some (Node 4 4 [Node 0 0 [] (Some 0) 10, Node 0 0 [] (Some 0) 20, Node 0 0 [] (Some 0) 30]
               None 0) \<and>
   step_forward 3 scenario_C = (Some InvalidBranch, scenario_C) \<and>
   step_forward (- 1) scenario_C = (Some InvalidBranch, scenario_C) \<and>
   step_forward 1 scenario_C = (None, scenario_C\<lparr>current := 5\<rparr>) \<and>
   deref (snd (step_forward 1 scenario_C)) (current (snd (step_forward 1 scenario_C)))
     = Some (Node 0 0 [] (Some 0) 20)"
proof -
  let ?n = "Node 4 4 [Node 0 0 [] (Some 0) 10, Node 0 0 [] (Some 0) 20, Node 0 0 [] (Some 0) 30]
               None (0::int)"
  have h1: "wf_zipper scenario_C" by code_simp
  have h2: "deref scenario_C (current scenario_C) = Some ?n" by code_simp
  have f1: "step_forward 3 scenario_C = (Some InvalidBranch, scenario_C)"
    using step_forward_spec [OF h1 h2, of 3] by simp
  have f2: "step_forward (- 1) scenario_C = (Some InvalidBranch, scenario_C)"
    using step_forward_spec [OF h1 h2, of "- 1"] by simp
  have f3: "step_forward 1 scenario_C = (None, scenario_C\<lparr>current := 5\<rparr>)"
    using step_forward_spec [OF h1 h2, of 1, THEN conjunct1] by simp
  have f4: "deref (snd (step_forward 1 scenario_C)) (current (snd (step_forward 1 scenario_C)))
      = Some (Node 0 0 [] (Some 0) 20)"
    using step_forward_spec [OF h1 h2, of 1, THEN conjunct2] by simp
  from f1 f2 f3 f4 h1 h2 show ?thesis by blast
qed

section \<open>Entering a new branch\<close>

text \<open>
  Claim C6. In a well-formed state whose cursor points to a node \<open>n\<close>:
  \<open>entre_new_branch(v)\<close> followed by \<open>step_back()\<close> throws nothing and brings the cursor
  back to where it was; the node there has the children of \<open>n\<close>, in their order, and
  after them a last child with the value \<open>v\<close>.
\<close>

theorem enter_then_step_back:
  assumes "wf_zipper z" and "deref z (current z) = Some n"
  shows "fst (entre_new_branch v z) = None \<and>
         fst (step_back (snd (entre_new_branch v z))) = None \<and>
         current (snd (step_back (snd (entre_new_branch v z)))) = current z \<and>
         map_option (\<lambda>m. map val (children m))
           (deref (snd (step_back (snd (entre_new_branch v z)))) (current z))
           = Some (map val (children n) @ [v])"
proof -
  define m' where "m' = snd (emplace_branch (heap_top z) (current z) v n)"
  define z1 where "z1 = snd (entre_new_branch v z)"
  have ch: "children m' = children n @ [Node 0 0 [] (Some (current z)) v]"
    unfolding m'_def by (rule emplace_branch_children)
  have found: "node_at (current z) root_addr (root z) = Some n"
    using assms(2) by (simp add: deref_def)
  have e1: "entre_new_branch v z =
      (None, \<lparr>root = update_at (current z) (\<lambda>_. m') root_addr (root z),
              current = children_data m' + length (children n),
              heap_top = fst (emplace_branch (heap_top z) (current z) v n)\<rparr>)"
    using assms(2) ch by (simp add: entre_new_branch_def m'_def split_beta)
  have wf1: "wf_zipper z1"
    unfolding z1_def using assms(1) by (rule wf_entre_new_branch)
  have here: "node_at (current z) root_addr (root z1) = Some m'"
    using update_lookup(1)[OF found, of m'] by (simp add: z1_def e1)
  have "node_at (children_data m' + length (children n)) root_addr (root z1)
          = Some (children m' ! length (children n))"
    using wf1 here ch
    by (intro node_at_child(1)[where a = "current z"]) (auto simp: wf_zipper_def)
  then have new: "deref z1 (current z1) = Some (Node 0 0 [] (Some (current z)) v)"
    using ch by (simp add: deref_def z1_def e1)
  have sb: "step_back z1 = (None, z1\<lparr>current := current z\<rparr>)"
    using new by (simp add: step_back_def can_step_back_def)
  have "deref (z1\<lparr>current := current z\<rparr>) (current z) = Some m'"
    using here by (simp add: deref_def)
  with sb e1 ch show ?thesis by (simp add: z1_def[symmetric]) (simp add: z1_def e1)
qed

theorem enter_then_step_back_witness:
  "wf_zipper scenario_A \<and>
   deref scenario_A (current scenario_A) = Some (Node 0 0 [] (Some 2) 2) \<and>
   current (snd (step_back (snd (entre_new_branch 7 scenario_A)))) = current scenario_A \<and>
   map_option (\<lambda>m. map val (children m))
     (deref (snd (step_back (snd (entre_new_branch 7 scenario_A)))) (current scenario_A))
     = Some [7]"
proof -
  have h1: "wf_zipper scenario_A" by code_simp
  have h2: "deref scenario_A (current scenario_A) = Some (Node 0 0 [] (Some 2) 2)"
    by code_simp
  from enter_then_step_back [OF h1 h2, of 7] h1 h2 show ?thesis by simp
qed

text \<open>
  Claim C2. Appending a child when the buffer of children is full moves the existing
  children to a new buffer, and the \<open>parent\<close> pointers of their own children keep the old
  address. After \<open>entre_new_branch(0)\<close>, \<open>entre_new_branch(1)\<close>, \<open>step_back(2)\<close> every
  parent pointer is right; \<open>entre_new_branch(6)\<close> then succeeds and leaves the parent
  pointer of node \<open>1\<close> wrong. Walking on from there with \<open>step_back()\<close>,
  \<open>step_forward(0)\<close>, \<open>step_forward(0)\<close>, \<open>step_back()\<close> throws nothing and leaves the
  cursor at an address where no node lives, so that the next \<open>step_back()\<close> reads freed
  memory.
\<close>

theorem entre_new_branch_stale_parent:
  "parents_ok root_addr (root before_growth) \<and>
   entre_new_branch 6 before_growth = (None, after_growth) \<and>
   \<not> parents_ok root_addr (root after_growth) \<and>
   fst (run [StepBack, StepForward 0, StepForward 0, StepBack] after_growth) = None \<and>
   (let z = snd (run [StepBack, StepForward 0, StepForward 0, StepBack] after_growth)
    in deref z (current z) = None \<and> fst (step_back z) = Some DanglingPointer)"
  by code_simp

section \<open>Printing\<close>

lemma printTree_lines:
  "ins = formatted sh \<Longrightarrow> - (2 ^ 29) \<le> depth \<Longrightarrow> depth + int (height n) \<le> 2 ^ 29 \<Longrightarrow>
     printTree ins depth n os =
       Inr (os\<lparr>os_text := os_text os @
                   concat (map (spec_line (os_adjust os) (os_fill os) (sh (os_flags os)))
                            (preorder depth n)),
               os_width := 0\<rparr>)"
  "ins = formatted sh \<Longrightarrow> - (2 ^ 29) \<le> depth \<Longrightarrow> depth + 1 + int (height_list cs) \<le> 2 ^ 29 \<Longrightarrow>
     os_width os = 0 \<Longrightarrow>
     printTree_children ins depth cs os =
       Inr (os\<lparr>os_text := os_text os @
                   concat (map (spec_line (os_adjust os) (os_fill os) (sh (os_flags os)))
                            (concat (map (preorder (depth + 1)) cs)))\<rparr>)"
proof (induction ins depth n os and ins depth cs os
       rule: printTree_printTree_children.induct)
  case (1 ins depth d c cs p v os)
  note ins = "1.prems"(1)
  have r: "in_int_range (depth * 4)"
    using "1.prems" by (simp add: in_int_range_def)
  let ?os = "endl (formatted sh v (setw (depth * 4) os))"
  have w: "os_width ?os = 0" by (simp add: endl_def formatted_def)
  have "printTree_children ins depth cs ?os =
       Inr (?os\<lparr>os_text := os_text ?os @
                   concat (map (spec_line (os_adjust ?os) (os_fill ?os) (sh (os_flags ?os)))
                            (concat (map (preorder (depth + 1)) cs)))\<rparr>)"
    using "1.IH" "1.prems" r w by simp
  with r ins show ?case
    by (simp add: endl_def formatted_def setw_def spec_line_def)
next
  case (2 ins depth os)
  then show ?case by simp
next
  case (3 ins depth ch chs os)
  have r: "in_int_range (depth + 1)"
    using "3.prems" by (simp add: in_int_range_def)
  let ?line = "spec_line (os_adjust os) (os_fill os) (sh (os_flags os))"
  let ?os = "os\<lparr>os_text := os_text os @ concat (map ?line (preorder (depth + 1) ch)),
                os_width := 0\<rparr>"
  have a: "printTree ins (depth + 1) ch os = Inr ?os"
    using "3.IH"(1) "3.prems" r by simp
  have "printTree_children ins depth chs ?os =
       Inr (?os\<lparr>os_text := os_text ?os @
                   concat (map (spec_line (os_adjust ?os) (os_fill ?os) (sh (os_flags ?os)))
                            (concat (map (preorder (depth + 1)) chs)))\<rparr>)"
    using "3.IH"(2)[OF _ a] "3.prems" r by simp
  with a r "3.prems"(4) show ?case by simp
qed

text \<open>
  Claim C9, as stated, fails: \<open>printTree\<close> sets the width of the field and nothing else,
  so on a stream that the caller has set to \<open>std::left\<close> the values are not right-aligned.
  Node \<open>0\<close> of Scenario A, at depth 1, is printed as \<open>0\<close> and three spaces, where
  right-aligned in four characters it is three spaces and \<open>0\<close>.
\<close>

theorem printTree_left_adjusted:
  "map_sum id os_text
     (zipper_printTree (formatted show_int) scenario_A (cout\<lparr>os_adjust := AdjustLeft\<rparr>))
     = Inr ''-1\<newline>0   \<newline>1       \<newline>2           \<newline>'' \<and>
   right_aligned (CHR '' '') (1 * 4) ''0'' = ''   0''"
  by code_simp

text \<open>
  Claim C9, amended. For a value type with a standard formatted inserter and a tree that
  an \<open>int\<close> can count the levels of (\<open>depth\<close> from \<open>-2\<^sup>2\<^sup>9\<close> on, no node deeper than
  \<open>2\<^sup>2\<^sup>9 - 1\<close>), \<open>printTree\<close> appends one line per node, the nodes in pre-order, the
  children after their parent in child order and one level deeper; the line of a node at
  depth \<open>d\<close> is the text of its value in a field of \<open>d \<times> 4\<close> characters and a newline. The
  field is filled with the fill character of the stream on the side its adjustment
  says: right-aligned unless the caller has set the stream to \<open>left\<close> (the fill follows the
  text) or \<open>internal\<close> (the fill follows the sign); a text longer than the field is not
  cut. The zipper prints from the root at depth 0, whose line has no padding.
\<close>

theorem printTree_format:
  assumes "- (2 ^ 29) \<le> depth" and "depth + int (height n) \<le> 2 ^ 29"
  shows "printTree (formatted sh) depth n os =
           Inr (os\<lparr>os_text := os_text os @
                       concat (map (spec_line (os_adjust os) (os_fill os) (sh (os_flags os)))
                                (preorder depth n)),
                   os_width := 0\<rparr>) \<and>
         preorder depth n = (depth, val n) # concat (map (preorder (depth + 1)) (children n)) \<and>
         (int (height (root z)) \<le> 2 ^ 29 \<longrightarrow>
            zipper_printTree (formatted sh) z os =
              Inr (os\<lparr>os_text := os_text os @
                          concat (map (spec_line (os_adjust os) (os_fill os) (sh (os_flags os)))
                                   (preorder 0 (root z))),
                      os_width := 0\<rparr>)) \<and>
         spec_line AdjustRight c tx (d, v)
           = right_aligned c (d * 4) (fst (tx v) @ snd (tx v)) @ [CHR 0x0A] \<and>
         spec_line AdjustLeft c tx (d, v)
           = left_aligned c (d * 4) (fst (tx v) @ snd (tx v)) @ [CHR 0x0A] \<and>
         spec_line AdjustInternal c tx (d, v)
           = fst (tx v) @ replicate (nat (d * 4 - int (length (fst (tx v) @ snd (tx v))))) c
               @ snd (tx v) @ [CHR 0x0A] \<and>
         spec_line adj c tx (0, v) = fst (tx v) @ snd (tx v) @ [CHR 0x0A]"
proof -
  have a: "printTree (formatted sh) depth n os =
           Inr (os\<lparr>os_text := os_text os @
                       concat (map (spec_line (os_adjust os) (os_fill os) (sh (os_flags os)))
                                (preorder depth n)),
                   os_width := 0\<rparr>)"
    using assms by (intro printTree_lines(1)) simp_all
  have b: "preorder depth n = (depth, val n) # concat (map (preorder (depth + 1)) (children n))"
    by (cases n) simp
  have c: "zipper_printTree (formatted sh) z os =
              Inr (os\<lparr>os_text := os_text os @
                          concat (map (spec_line (os_adjust os) (os_fill os) (sh (os_flags os)))
                                   (preorder 0 (root z))),
                      os_width := 0\<rparr>)" if "int (height (root z)) \<le> 2 ^ 29"
    unfolding zipper_printTree_def using that by (intro printTree_lines(1)) simp_all
  have d: "spec_line AdjustRight c tx (d, v)
           = right_aligned c (d * 4) (fst (tx v) @ snd (tx v)) @ [CHR 0x0A]"
    "spec_line AdjustLeft c tx (d, v)
           = left_aligned c (d * 4) (fst (tx v) @ snd (tx v)) @ [CHR 0x0A]"
    "spec_line AdjustInternal c tx (d, v)
           = fst (tx v) @ replicate (nat (d * 4 - int (length (fst (tx v) @ snd (tx v))))) c
               @ snd (tx v) @ [CHR 0x0A]"
    by (simp_all add: spec_line_def pad_field_def right_aligned_def left_aligned_def
          split_beta Let_def)
  have e: "spec_line adj c tx (0, v) = fst (tx v) @ snd (tx v) @ [CHR 0x0A]"
    by (cases adj) (simp_all add: spec_line_def pad_field_def split_beta Let_def)
  from a b c d e show ?thesis by blast
qed

theorem printTree_format_witness:
  "- (2 ^ 29) \<le> (0::int) \<and> 0 + int (height (root scenario_A)) \<le> 2 ^ 29 \<and>
   int (height (root scenario_A)) \<le> 2 ^ 29 \<and>
   zipper_printTree (formatted show_int) scenario_A cout =
     Inr (cout\<lparr>os_text := ''-1\<newline>   0\<newline>       1\<newline>           2\<newline>''\<rparr>)"
proof -
  have h: "int (height (root scenario_A)) \<le> 2 ^ 29" by code_simp
  have a1: "- (2 ^ 29) \<le> (0::int)" by simp
  have a2: "0 + int (height (root scenario_A)) \<le> 2 ^ 29" using h by simp
  have t: "concat (map (spec_line AdjustRight (CHR '' '') (show_int ()))
                     (preorder 0 (root scenario_A)))
      = ''-1\<newline>   0\<newline>       1\<newline>           2\<newline>''"
    by code_simp
  have "zipper_printTree (formatted show_int) scenario_A cout =
      Inr (cout\<lparr>os_text := os_text cout @
                  concat (map (spec_line (os_adjust cout) (os_fill cout) (show_int (os_flags cout)))
                           (preorder 0 (root scenario_A))),
                os_width := 0\<rparr>)"
    using printTree_format [OF a1 a2, where sh = show_int and os = cout and z = scenario_A,
        THEN conjunct2, THEN conjunct2, THEN conjunct1, THEN mp, OF h] .
  with h t show ?thesis by (simp add: cout_def)
qed

section \<open>The demo\<close>

text \<open>
  Claim C3, as stated, fails: in the demo no call of \<open>step_back(5)\<close> throws; the loop runs
  through all 26 rounds without an exception.
\<close>

theorem demo_no_step_back_fails:
  "fst (demo_loop 0 (zipper_init (- 1))) = None"
  by code_simp

text \<open>
  Claim C3, amended. The demo reports no error: each \<open>step_back(5)\<close> is called below a
  chain of five nodes and succeeds. The tree printed at the end is the root \<open>-1\<close> with
  the chains \<open>0\<dots>4\<close>, \<open>6\<dots>10\<close>, \<open>12\<dots>16\<close>, \<open>18\<dots>22\<close> and \<open>24, 25\<close>; the cursor ends on
  node \<open>25\<close>, two steps below the root.
\<close>

theorem demo_runs_through:
  "demo_main = (None, Inr
     ''-1\<newline>   0\<newline>       1\<newline>           2\<newline>               3\<newline>                   4\<newline>   6\<newline>       7\<newline>           8\<newline>               9\<newline>                  10\<newline>  12\<newline>      13\<newline>          14\<newline>              15\<newline>                  16\<newline>  18\<newline>      19\<newline>          20\<newline>              21\<newline>                  22\<newline>  24\<newline>      25\<newline>'') \<and>
   (let z = snd (demo_loop 0 (zipper_init (- 1)))
    in map_option val (deref z (current z)) = Some 25 \<and>
       fst (step_back_n 2 z) = None \<and>
       current (snd (step_back_n 2 z)) = root_addr)"
  by code_simp

end
